theory Spec2Isabelle
  imports Main
begin

section \<open>The layered store of memorydb (store.go)\<close>

text \<open>
  The Go program keeps one global pointer \<open>currentStore\<close> to a \<open>Store\<close>; every
  \<open>Store\<close> holds two maps and a pointer to its parent. A parent is referenced by at most
  one live child, and no two stores ever share a map, so the chain that hangs off
  \<open>currentStore\<close> is modelled as a value: a store that contains its parent. A method that
  mutates its receiver returns the receiver's new value next to its Go result, and the
  methods that call \<open>SetCurrentStore\<close> return the store that \<open>currentStore\<close> points to
  afterwards.

  Go's \<open>int\<close> is modelled as \<open>int\<close>: every unit of a count comes from one call of
  \<open>Set\<close>, so the 64-bit range is out of reach.
\<close>

datatype error = ERR_KEY_NOT_EXIST | ERR_NOT_TRANSACTION

datatype Store =
  Store (Kv: "string \<rightharpoonup> string") (CountDiff: "string \<rightharpoonup> int") (Parent: "Store option")

text \<open>Reading a \<open>map[string]int\<close> at a missing key gives 0 and does not insert the key.\<close>

definition readCount :: "(string \<rightharpoonup> int) \<Rightarrow> string \<Rightarrow> int" where
  "readCount cd val = (case cd val of None \<Rightarrow> 0 | Some cnt \<Rightarrow> cnt)"

definition NewStore :: "Store option \<Rightarrow> Store" where
  "NewStore parent = Store Map.empty Map.empty parent"

definition InitStore :: Store where
  "InitStore = NewStore None"

fun GetPrimaryStore :: "Store \<Rightarrow> Store" where
  "GetPrimaryStore (Store kv cd None) = Store kv cd None"
| "GetPrimaryStore (Store kv cd (Some p)) = GetPrimaryStore p"

text \<open>\<open>Get\<close> returns the pair \<open>(value, err)\<close> of the Go function; \<open>None\<close> is \<open>nil\<close>.\<close>

fun Get :: "Store \<Rightarrow> string \<Rightarrow> string \<times> error option" where
  "Get (Store kv cd par) key =
     (case kv key of
        Some val \<Rightarrow> (val, None)
      | None \<Rightarrow>
          (case par of
             None \<Rightarrow> ('''', Some ERR_KEY_NOT_EXIST)
           | Some p \<Rightarrow> Get p key))"

definition Set :: "Store \<Rightarrow> string \<Rightarrow> string \<Rightarrow> error option \<times> Store" where
  "Set s key val =
     (let (oldValue, err) = Get s key in
      if err \<noteq> None \<and> err \<noteq> Some ERR_KEY_NOT_EXIST then (err, s)
      else
        let cd1 = (if err \<noteq> Some ERR_KEY_NOT_EXIST
                   then (CountDiff s)(oldValue \<mapsto> readCount (CountDiff s) oldValue - 1)
                   else CountDiff s);
            kv1 = (Kv s)(key \<mapsto> val);
            cd2 = (if val \<noteq> '''' then cd1(val \<mapsto> readCount cd1 val + 1) else cd1)
        in (None, Store kv1 cd2 (Parent s)))"

definition Delete :: "Store \<Rightarrow> string \<Rightarrow> error option \<times> Store" where
  "Delete s key =
     (let (val, err) = Get s key in
      if err \<noteq> None then (err, s)
      else (None, snd (Set s key '''')))"

fun Count :: "Store \<Rightarrow> string \<Rightarrow> int \<times> error option" where
  "Count (Store kv cd None) val = (readCount cd val, None)"
| "Count (Store kv cd (Some p)) val =
     (let (pCnt, err) = Count p val in
      if err \<noteq> None then (- 1, err)
      else (readCount cd val + pCnt, None))"

definition Begin :: "Store \<Rightarrow> error option \<times> Store" where
  "Begin s = (None, NewStore (Some s))"

definition Rollback :: "Store \<Rightarrow> error option \<times> Store" where
  "Rollback s =
     (case Parent s of
        None \<Rightarrow> (Some ERR_NOT_TRANSACTION, s)
      | Some p \<Rightarrow> (None, p))"

text \<open>
  The loop \<open>for val, cnt := range s.CountDiff { s.Parent.CountDiff[val] += cnt }\<close>:
  every entry of the child is added to the parent's entry, read as 0 when missing.
\<close>

definition addCountDiff :: "(string \<rightharpoonup> int) \<Rightarrow> (string \<rightharpoonup> int) \<Rightarrow> (string \<rightharpoonup> int)" where
  "addCountDiff pcd cd =
     (\<lambda>val. case cd val of None \<Rightarrow> pcd val | Some cnt \<Rightarrow> Some (readCount pcd val + cnt))"

fun commitCountDiffs :: "Store \<Rightarrow> (string \<rightharpoonup> int)" where
  "commitCountDiffs (Store kv cd None) = cd"
| "commitCountDiffs (Store kv cd (Some (Store pkv pcd ppar))) =
     commitCountDiffs (Store pkv (addCountDiff pcd cd) ppar)"

text \<open>
  The loop \<open>for k, v := range s.Kv { primary.Kv[k] = v }\<close> is the map \<open>Kv primary ++ Kv s\<close>.
\<close>

definition Commit :: "Store \<Rightarrow> error option \<times> Store" where
  "Commit s =
     (case Parent s of
        None \<Rightarrow> (Some ERR_NOT_TRANSACTION, s)
      | Some _ \<Rightarrow>
          let primary = GetPrimaryStore s;
              kv1 = Kv primary ++ Kv s;
              cd1 = commitCountDiffs s
          in (None, Store kv1 cd1 (Parent primary)))"

subsection \<open>The interpreter's handlers (main.go)\<close>

text \<open>
  \<open>handleGet\<close> prints \<open>NULL\<close> both for a missing key and for the empty string.
\<close>

definition handleGet :: "Store \<Rightarrow> string \<Rightarrow> string \<times> error option" where
  "handleGet s key =
     (let (val, err) = Get s key in
      if err = Some ERR_KEY_NOT_EXIST \<or> val = '''' then (''NULL'', None)
      else (val, err))"

text \<open>
  The seven commands of \<open>funcMap\<close> that reach the store. Each handler calls one method
  on \<open>GetCurrentStore()\<close>; \<open>handle\<close> gives the error that method returns and the store
  that \<open>currentStore\<close> points to afterwards. \<open>Get\<close> and \<open>Count\<close> write nothing.
\<close>

datatype command =
  SET string string | GET string | DELETE string | COUNT string | BEGIN | ROLLBACK | COMMIT

fun handle :: "Store \<Rightarrow> command \<Rightarrow> error option \<times> Store" where
  "handle s (SET key val) = Set s key val"
| "handle s (GET key) = (snd (Get s key), s)"
| "handle s (DELETE key) = Delete s key"
| "handle s (COUNT val) = (snd (Count s val), s)"
| "handle s BEGIN = Begin s"
| "handle s ROLLBACK = Rollback s"
| "handle s COMMIT = Commit s"

fun exec :: "Store \<Rightarrow> command list \<Rightarrow> Store" where
  "exec s [] = s"
| "exec s (c # cs) = exec (snd (handle s c)) cs"

text \<open>The layers from a store to the root, nearest first, and the nesting depth.\<close>

fun layers :: "Store \<Rightarrow> Store list" where
  "layers (Store kv cd None) = [Store kv cd None]"
| "layers (Store kv cd (Some p)) = Store kv cd (Some p) # layers p"

definition depth :: "Store \<Rightarrow> nat" where
  "depth s = length (layers s) - 1"

subsection \<open>Notions used to state the properties\<close>

text \<open>The keys that currently resolve to a value: \<open>Get\<close> returns it with a \<open>nil\<close> error.\<close>

definition keysWith :: "Store \<Rightarrow> string \<Rightarrow> string set" where
  "keysWith s val = {key. Get s key = (val, None)}"

text \<open>Two stores are observationally equal when every \<open>Get\<close> and every \<open>Count\<close> agree.\<close>

definition obsEq :: "Store \<Rightarrow> Store \<Rightarrow> bool" where
  "obsEq a b \<longleftrightarrow> (\<forall>key. Get a key = Get b key) \<and> (\<forall>val. Count a val = Count b val)"

text \<open>
  The relation between the two runs of the depth-1 commit property: \<open>a\<close> is one
  transaction deep on the root \<open>r\<close>, and \<open>b\<close> is the root that holds \<open>r\<close> with the
  overlay of \<open>a\<close> written over it and the count deltas of \<open>a\<close> added to it.
\<close>

definition folded :: "Store \<Rightarrow> Store \<Rightarrow> Store \<Rightarrow> bool" where
  "folded a r b \<longleftrightarrow>
     Parent a = Some r \<and> Parent r = None \<and> Parent b = None \<and>
     Kv b = Kv r ++ Kv a \<and> CountDiff b = addCountDiff (CountDiff r) (CountDiff a)"

text \<open>The commands that neither open nor close a transaction.\<close>

fun isData :: "command \<Rightarrow> bool" where
  "isData (SET key val) = True"
| "isData (GET key) = True"
| "isData (DELETE key) = True"
| "isData (COUNT val) = True"
| "isData BEGIN = False"
| "isData ROLLBACK = False"
| "isData COMMIT = False"

text \<open>
  \<open>balanced d cs\<close>: the commands \<open>cs\<close>, started \<open>d\<close> transactions deep inside a
  transaction of interest, hold no \<open>COMMIT\<close>, never roll back more transactions than they
  have begun themselves, and end with all of their own transactions rolled back.
\<close>

fun balanced :: "nat \<Rightarrow> command list \<Rightarrow> bool" where
  "balanced d [] = (d = 0)"
| "balanced d (BEGIN # cs) = balanced (Suc d) cs"
| "balanced d (ROLLBACK # cs) = (case d of 0 \<Rightarrow> False | Suc d' \<Rightarrow> balanced d' cs)"
| "balanced d (COMMIT # cs) = False"
| "balanced d (SET key val # cs) = balanced d cs"
| "balanced d (GET key # cs) = balanced d cs"
| "balanced d (DELETE key # cs) = balanced d cs"
| "balanced d (COUNT val # cs) = balanced d cs"

text \<open>
  \<open>shallowCommits s cs\<close>: while \<open>cs\<close> runs from \<open>s\<close>, every \<open>COMMIT\<close> is issued at the
  root (where it fails) or one transaction deep.
\<close>

fun shallowCommits :: "Store \<Rightarrow> command list \<Rightarrow> bool" where
  "shallowCommits s [] = True"
| "shallowCommits s (c # cs) =
     ((if c = COMMIT then depth s \<le> 1 else True) \<and> shallowCommits (snd (handle s c)) cs)"

text \<open>The store \<open>n\<close> parent links up, when the chain is that long.\<close>

fun ancestor :: "nat \<Rightarrow> Store \<Rightarrow> Store option" where
  "ancestor 0 s = Some s"
| "ancestor (Suc n) s = (case Parent s of None \<Rightarrow> None | Some p \<Rightarrow> ancestor n p)"

text \<open>
  The invariant behind the count property: at every layer of the chain, taken as a store of
  its own, the overlay is finite and the count of every non-empty value is the number of
  keys that resolve to it.
\<close>

definition counted :: "Store \<Rightarrow> bool" where
  "counted s \<longleftrightarrow>
     (\<forall>l \<in> set (layers s).
        finite (dom (Kv l)) \<and>
        (\<forall>val. val \<noteq> '''' \<longrightarrow> fst (Count l val) = int (card (keysWith l val))))"

section \<open>Basic facts\<close>

lemmas eval_defs =
  InitStore_def NewStore_def Begin_def Rollback_def Commit_def readCount_def addCountDiff_def
  depth_def Let_def

lemma readCount_empty: "readCount Map.empty val = 0"
  by (simp add: readCount_def)

lemma readCount_upd: "readCount (cd(v \<mapsto> n)) w = (if w = v then n else readCount cd w)"
  by (simp add: readCount_def)

lemma readCount_addCountDiff:
  "readCount (addCountDiff pcd cd) val = readCount pcd val + readCount cd val"
  by (simp add: readCount_def addCountDiff_def split: option.splits)

lemma layers_sel: "layers s = s # (case Parent s of None \<Rightarrow> [] | Some p \<Rightarrow> layers p)"
  by (cases s rule: layers.cases) simp_all

lemma layers_nonempty: "layers s \<noteq> []"
  by (subst layers_sel) simp

lemma depth_sel: "depth s = (case Parent s of None \<Rightarrow> 0 | Some p \<Rightarrow> Suc (depth p))"
  unfolding depth_def using layers_nonempty
  by (subst layers_sel) (simp split: option.splits)

lemma exec_append: "exec s (xs @ ys) = exec (exec s xs) ys"
  by (induction xs arbitrary: s) simp_all

subsection \<open>Get and Count\<close>

lemma Get_sel:
  "Get s key =
     (case Kv s key of
        Some val \<Rightarrow> (val, None)
      | None \<Rightarrow> (case Parent s of None \<Rightarrow> ('''', Some ERR_KEY_NOT_EXIST) | Some p \<Rightarrow> Get p key))"
  by (cases s) (simp split: option.splits)

lemma Get_err: "snd (Get s key) = None \<or> snd (Get s key) = Some ERR_KEY_NOT_EXIST"
  by (induction s key rule: Get.induct) (simp split: option.splits)

lemma Get_err_value: "snd (Get s key) = Some e \<Longrightarrow> fst (Get s key) = ''''"
  by (induction s key rule: Get.induct) (simp split: option.splits)

lemma Get_find:
  "Get s key =
     (case List.find (\<lambda>l. Kv l key \<noteq> None) (layers s) of
        None \<Rightarrow> ('''', Some ERR_KEY_NOT_EXIST)
      | Some l \<Rightarrow> (the (Kv l key), None))"
  by (induction s rule: layers.induct) (auto split: option.splits)

lemma Get_fails_iff:
  "snd (Get s key) = Some ERR_KEY_NOT_EXIST \<longleftrightarrow> (\<forall>l \<in> set (layers s). Kv l key = None)"
  by (induction s rule: layers.induct) (auto split: option.splits)

lemma Count_err: "snd (Count s val) = None"
  by (induction s val rule: Count.induct) (simp_all add: split_beta)

lemma Count_pair: "Count s val = (fst (Count s val), None)"
  by (metis Count_err prod.collapse)

lemma Count_eq_iff: "Count a val = Count b val \<longleftrightarrow> fst (Count a val) = fst (Count b val)"
  by (metis Count_pair)

lemma Count_sel:
  "fst (Count s val) =
     readCount (CountDiff s) val + (case Parent s of None \<Rightarrow> 0 | Some p \<Rightarrow> fst (Count p val))"
proof (cases s)
  case (Store kv cd par)
  then show ?thesis
    using Count_err by (cases par) (simp_all add: split_beta)
qed

lemma Count_Store:
  "fst (Count (Store kv cd par) val) =
     readCount cd val + (case par of None \<Rightarrow> 0 | Some p \<Rightarrow> fst (Count p val))"
  using Count_sel [of "Store kv cd par" val] by (simp only: Store.sel)

lemma obsEq_iff:
  "obsEq a b \<longleftrightarrow>
     (\<forall>key. Get a key = Get b key) \<and> (\<forall>val. fst (Count a val) = fst (Count b val))"
  unfolding obsEq_def using Count_eq_iff by simp

lemma obsEq_trans: "obsEq a b \<Longrightarrow> obsEq b c \<Longrightarrow> obsEq a c"
  by (simp add: obsEq_def)

lemma keysWith_obsEq: "obsEq a b \<Longrightarrow> keysWith a val = keysWith b val"
  by (simp add: keysWith_def obsEq_def)

subsection \<open>Set and Delete\<close>

lemma Set_eq:
  "Set s key val =
     (None,
      Store ((Kv s)(key \<mapsto> val))
        (let cd1 = (if snd (Get s key) = None
                    then (CountDiff s)(fst (Get s key) \<mapsto> readCount (CountDiff s) (fst (Get s key)) - 1)
                    else CountDiff s)
         in if val \<noteq> '''' then cd1(val \<mapsto> readCount cd1 val + 1) else cd1)
        (Parent s))"
  using Get_err [of s key] by (auto simp: Set_def split_beta Let_def)

lemma Delete_eq:
  "Delete s key =
     (if snd (Get s key) = None then (None, snd (Set s key '''')) else (snd (Get s key), s))"
  by (simp add: Delete_def split_beta)

lemma Kv_Set: "Kv (snd (Set s key val)) = (Kv s)(key \<mapsto> val)"
  by (simp add: Set_eq)

lemma Parent_Set: "Parent (snd (Set s key val)) = Parent s"
  by (simp add: Set_eq)

lemma Get_Set: "Get (snd (Set s key val)) k = (if k = key then (val, None) else Get s k)"
  by (subst Get_sel) (simp add: Set_eq Get_sel [of s k])

lemma readCount_Set:
  "readCount (CountDiff (snd (Set s key val))) w =
     readCount (CountDiff s) w
       - (if snd (Get s key) = None \<and> fst (Get s key) = w then 1 else 0)
       + (if val \<noteq> '''' \<and> val = w then 1 else 0)"
  by (auto simp: Set_eq Let_def readCount_upd)

lemma Count_Set:
  "fst (Count (snd (Set s key val)) w) =
     fst (Count s w)
       - (if snd (Get s key) = None \<and> fst (Get s key) = w then 1 else 0)
       + (if val \<noteq> '''' \<and> val = w then 1 else 0)"
  by (simp add: Count_sel [of "snd (Set s key val)"] Count_sel [of s] readCount_Set Parent_Set)

lemma Parent_data: "isData c \<Longrightarrow> Parent (snd (handle s c)) = Parent s"
  by (cases c) (simp_all add: Parent_Set Delete_eq)

lemma obsEq_Set: "obsEq a b \<Longrightarrow> obsEq (snd (Set a key val)) (snd (Set b key val))"
  by (simp add: obsEq_iff Get_Set Count_Set)

lemma obsEq_data: "obsEq a b \<Longrightarrow> isData c \<Longrightarrow> obsEq (snd (handle a c)) (snd (handle b c))"
proof (cases c)
  case (DELETE key)
  assume "obsEq a b"
  moreover from this have "Get a key = Get b key" by (simp add: obsEq_def)
  ultimately show ?thesis using DELETE by (simp add: Delete_eq obsEq_Set)
qed (simp_all add: obsEq_Set)

lemma obsEq_exec:
  "obsEq a b \<Longrightarrow> list_all isData cs \<Longrightarrow>
     obsEq (exec a cs) (exec b cs) \<and> Parent (exec a cs) = Parent a"
proof (induction cs arbitrary: a b)
  case Nil
  then show ?case by simp
next
  case (Cons c cs)
  then have "obsEq (snd (handle a c)) (snd (handle b c))" by (simp add: obsEq_data)
  with Cons show ?case by (simp add: Parent_data)
qed

subsection \<open>Begin, Rollback and Commit\<close>

lemma obsEq_Begin: "obsEq (snd (Begin r)) r"
  by (simp add: obsEq_iff Begin_def NewStore_def Count_err split_beta readCount_empty)

lemma Parent_GetPrimaryStore: "Parent (GetPrimaryStore s) = None"
  by (induction s rule: GetPrimaryStore.induct) simp_all

lemma Commit_eq:
  "Parent s \<noteq> None \<Longrightarrow>
     Commit s = (None, Store (Kv (GetPrimaryStore s) ++ Kv s) (commitCountDiffs s) None)"
  by (auto simp: Commit_def Let_def Parent_GetPrimaryStore)

lemma Commit_depth1:
  assumes "Parent a = Some r" "Parent r = None"
  shows "snd (Commit a) = Store (Kv r ++ Kv a) (addCountDiff (CountDiff r) (CountDiff a)) None"
proof -
  obtain kv cd where a: "a = Store kv cd (Some r)" using assms(1) by (cases a) simp
  obtain pkv pcd where r: "r = Store pkv pcd None" using assms(2) by (cases r) simp
  show ?thesis by (simp add: a r Commit_def)
qed

lemma addCountDiff_empty: "addCountDiff pcd Map.empty = pcd"
  by (simp add: addCountDiff_def)

lemma addCountDiff_upd:
  "addCountDiff pcd (cd(v \<mapsto> readCount cd v + d)) =
     (addCountDiff pcd cd)(v \<mapsto> readCount (addCountDiff pcd cd) v + d)"
  by (rule ext) (simp add: addCountDiff_def readCount_def split: option.splits)

lemma folded_Begin: "Parent r = None \<Longrightarrow> folded (snd (Begin r)) r r"
  by (simp add: folded_def Begin_def NewStore_def addCountDiff_empty)

lemma folded_Get: "folded a r b \<Longrightarrow> Get a key = Get b key"
  by (simp add: folded_def Get_sel [of a] Get_sel [of b] Get_sel [of r] map_add_def
      split: option.splits)

lemma folded_Set:
  assumes "folded a r b"
  shows "folded (snd (Set a key val)) r (snd (Set b key val))"
proof -
  have g: "Get a key = Get b key" using assms by (rule folded_Get)
  have u: "addCountDiff pcd (cd(v \<mapsto> readCount cd v - 1)) =
      (addCountDiff pcd cd)(v \<mapsto> readCount (addCountDiff pcd cd) v - 1)" for pcd cd v
    using addCountDiff_upd [of pcd cd v "- 1"] by simp
  show ?thesis
    using assms
    by (simp add: folded_def Set_eq g Let_def u addCountDiff_upd)
qed

lemma folded_data:
  "folded a r b \<Longrightarrow> isData c \<Longrightarrow> folded (snd (handle a c)) r (snd (handle b c))"
  by (cases c) (simp_all add: folded_Set Delete_eq folded_Get)

lemma folded_exec:
  "folded a r b \<Longrightarrow> list_all isData cs \<Longrightarrow> folded (exec a cs) r (exec b cs)"
  by (induction cs arbitrary: a b) (simp_all add: folded_data)

lemma folded_Commit: "folded a r b \<Longrightarrow> snd (Commit a) = b"
proof -
  assume f: "folded a r b"
  then have "snd (Commit a) = Store (Kv r ++ Kv a) (addCountDiff (CountDiff r) (CountDiff a)) None"
    by (simp add: folded_def Commit_depth1)
  also have "\<dots> = b" using f by (cases b) (simp add: folded_def)
  finally show ?thesis .
qed

lemma Commit_is_direct:
  assumes "Parent r = None" and "list_all isData cs"
  shows "exec r (BEGIN # cs @ [COMMIT]) = exec r cs"
  using folded_Commit [OF folded_exec [OF folded_Begin [OF assms(1)] assms(2)]]
  by (simp add: exec_append)

lemma Parent_exec_data: "list_all isData cs \<Longrightarrow> Parent (exec s cs) = Parent s"
  by (induction cs arbitrary: s) (simp_all add: Parent_data)

lemma obsEq_Commit_depth1:
  assumes "Parent a = Some r" "Parent r = None"
  shows "obsEq (snd (Commit a)) a"
proof -
  obtain kv cd where a: "a = Store kv cd (Some r)" using assms(1) by (cases a) simp
  obtain pkv pcd where r: "r = Store pkv pcd None" using assms(2) by (cases r) simp
  have "Get (snd (Commit a)) key = Get a key" for key
    by (simp add: a r Commit_def map_add_def split: option.splits)
  moreover have "fst (Count (snd (Commit a)) val) = fst (Count a val)" for val
    by (simp add: a r Commit_def readCount_addCountDiff)
  ultimately show ?thesis by (simp add: obsEq_iff)
qed

lemma ancestor_data: "isData c \<Longrightarrow> ancestor (Suc d) (snd (handle t c)) = ancestor (Suc d) t"
  by (simp add: Parent_data)

lemma balanced_exec:
  "balanced d cs \<Longrightarrow> ancestor (Suc d) t = Some s \<Longrightarrow> exec t (cs @ [ROLLBACK]) = s"
proof (induction d cs arbitrary: t rule: balanced.induct)
  case (1 d)
  then show ?case by (simp add: Rollback_def split: option.splits)
next
  case (2 d cs)
  then show ?case by (simp add: Begin_def NewStore_def)
next
  case (3 d cs)
  then show ?case by (auto simp: Rollback_def split: nat.splits option.splits)
next
  case (4 d cs)
  then show ?case by simp
next
  case (5 d key val cs)
  then show ?case using ancestor_data [of "SET key val" d t] by simp
next
  case (6 d key cs)
  then show ?case by simp
next
  case (7 d key cs)
  then show ?case using ancestor_data [of "DELETE key" d t] by simp
next
  case (8 d val cs)
  then show ?case by simp
qed

text \<open>
  At any depth, \<open>Commit\<close> folds the count deltas of every layer into the root, but writes
  only the overlay of the current layer into the root's: the overlays of the layers in
  between are dropped.
\<close>

lemma commitCountDiffs_Count: "readCount (commitCountDiffs s) val = fst (Count s val)"
proof (induction s rule: commitCountDiffs.induct)
  case (1 kv cd)
  then show ?case by simp
next
  case (2 kv cd pkv pcd ppar)
  then show ?case
    by (simp add: Count_Store readCount_addCountDiff del: Count.simps)
qed

lemma Count_Commit: "Count (snd (Commit s)) val = Count s val"
proof (cases "Parent s")
  case None
  then show ?thesis by (simp add: Commit_def)
next
  case (Some p)
  then show ?thesis
    by (simp add: Commit_eq commitCountDiffs_Count) (metis Count_err prod.collapse)
qed

lemma Get_Commit:
  "Parent s \<noteq> None \<Longrightarrow>
     Get (snd (Commit s)) key =
       (case Kv s key of Some val \<Rightarrow> (val, None) | None \<Rightarrow> Get (GetPrimaryStore s) key)"
  by (simp add: Commit_eq Get_sel [of "GetPrimaryStore s"] Parent_GetPrimaryStore map_add_def
      split: option.splits)

subsection \<open>The tests of the repository\<close>

text \<open>
  \<open>Example2\<close> and \<open>Example4\<close> of the test file, statement by statement: the model prints
  what the tests expect.
\<close>

lemma Example2:
  "fst (Count (exec InitStore [SET ''a'' ''foo'', SET ''a'' ''foo'']) ''foo'') = 1 \<and>
   handleGet (exec InitStore [SET ''a'' ''foo'', SET ''a'' ''foo'']) ''a'' = (''foo'', None) \<and>
   handleGet (exec InitStore [SET ''a'' ''foo'', SET ''a'' ''foo'', DELETE ''a'']) ''a''
     = (''NULL'', None) \<and>
   fst (Count (exec InitStore [SET ''a'' ''foo'', SET ''a'' ''foo'', DELETE ''a'']) ''foo'') = 0"
  by (simp add: eval_defs Set_eq Delete_eq handleGet_def)

lemma Example4:
  "handleGet (exec InitStore [SET ''a'' ''foo'', SET ''b'' ''baz'', BEGIN]) ''a'' = (''foo'', None) \<and>
   fst (Count (exec InitStore [SET ''a'' ''foo'', SET ''b'' ''baz'', BEGIN, SET ''a'' ''bar'', BEGIN])
     ''bar'') = 1 \<and>
   handleGet (exec InitStore [SET ''a'' ''foo'', SET ''b'' ''baz'', BEGIN, SET ''a'' ''bar'', BEGIN,
     DELETE ''a'']) ''a'' = (''NULL'', None) \<and>
   fst (Count (exec InitStore [SET ''a'' ''foo'', SET ''b'' ''baz'', BEGIN, SET ''a'' ''bar'', BEGIN,
     DELETE ''a'']) ''bar'') = 0 \<and>
   handleGet (exec InitStore [SET ''a'' ''foo'', SET ''b'' ''baz'', BEGIN, SET ''a'' ''bar'', BEGIN,
     DELETE ''a'', ROLLBACK]) ''a'' = (''bar'', None) \<and>
   fst (Count (exec InitStore [SET ''a'' ''foo'', SET ''b'' ''baz'', BEGIN, SET ''a'' ''bar'', BEGIN,
     DELETE ''a'', ROLLBACK]) ''bar'') = 1 \<and>
   handleGet (exec InitStore [SET ''a'' ''foo'', SET ''b'' ''baz'', BEGIN, SET ''a'' ''bar'', BEGIN,
     DELETE ''a'', ROLLBACK, COMMIT]) ''a'' = (''bar'', None) \<and>
   handleGet (exec InitStore [SET ''a'' ''foo'', SET ''b'' ''baz'', BEGIN, SET ''a'' ''bar'', BEGIN,
     DELETE ''a'', ROLLBACK, COMMIT]) ''b'' = (''baz'', None)"
  by (simp add: eval_defs Set_eq Delete_eq handleGet_def)

section \<open>The count invariant\<close>

lemma keysWith_subset: "keysWith s val \<subseteq> (\<Union>l \<in> set (layers s). dom (Kv l))"
proof
  fix key assume "key \<in> keysWith s val"
  then have "snd (Get s key) \<noteq> Some ERR_KEY_NOT_EXIST" by (simp add: keysWith_def)
  then show "key \<in> (\<Union>l \<in> set (layers s). dom (Kv l))"
    using Get_fails_iff [of s key] by auto
qed

lemma finite_keysWith:
  "\<forall>l \<in> set (layers s). finite (dom (Kv l)) \<Longrightarrow> finite (keysWith s val)"
  by (rule finite_subset [OF keysWith_subset]) simp

lemma keysWith_Set:
  "keysWith (snd (Set s key val)) w =
     (if val = w then insert key (keysWith s w) else keysWith s w - {key})"
  by (auto simp: keysWith_def Get_Set)

lemma card_Set:
  assumes "finite (keysWith s w)" "w \<noteq> ''''"
  shows "int (card (keysWith (snd (Set s key val)) w)) =
     int (card (keysWith s w))
       - (if snd (Get s key) = None \<and> fst (Get s key) = w then 1 else 0)
       + (if val \<noteq> '''' \<and> val = w then 1 else 0)"
proof -
  have mem: "key \<in> keysWith s w \<longleftrightarrow> snd (Get s key) = None \<and> fst (Get s key) = w"
    by (cases "Get s key") (auto simp: keysWith_def)
  show ?thesis
  proof (cases "key \<in> keysWith s w")
    case True
    then have "card (keysWith s w) > 0" using assms(1) by (auto simp: card_gt_0_iff)
    then show ?thesis
      using True assms mem by (auto simp: keysWith_Set insert_absorb)
  next
    case False
    then show ?thesis
      using assms mem by (auto simp: keysWith_Set)
  qed
qed

lemma counted_sel:
  "counted s \<longleftrightarrow>
     finite (dom (Kv s)) \<and>
     (\<forall>val. val \<noteq> '''' \<longrightarrow> fst (Count s val) = int (card (keysWith s val))) \<and>
     (case Parent s of None \<Rightarrow> True | Some p \<Rightarrow> counted p)"
  unfolding counted_def by (subst layers_sel) (auto split: option.splits)

lemma counted_finite: "counted s \<Longrightarrow> finite (keysWith s val)"
  by (rule finite_keysWith) (simp add: counted_def)

lemma counted_InitStore: "counted InitStore"
  by (simp add: counted_def InitStore_def NewStore_def keysWith_def readCount_empty)

lemma counted_Set: "counted s \<Longrightarrow> counted (snd (Set s key val))"
proof -
  assume c: "counted s"
  have "fst (Count (snd (Set s key val)) w) = int (card (keysWith (snd (Set s key val)) w))"
    if "w \<noteq> ''''" for w
    using c that card_Set [OF counted_finite [OF c] that]
    by (simp add: Count_Set counted_sel [of s])
  then show ?thesis
    using c by (simp add: counted_sel [of "snd (Set s key val)"] counted_sel [of s] Kv_Set Parent_Set)
qed

lemma counted_Begin: "counted s \<Longrightarrow> counted (snd (Begin s))"
proof -
  assume c: "counted s"
  have o: "obsEq (snd (Begin s)) s" by (rule obsEq_Begin)
  have "Kv (snd (Begin s)) = Map.empty" "Parent (snd (Begin s)) = Some s"
    by (simp_all add: Begin_def NewStore_def)
  then show ?thesis
    using c o
    by (simp add: counted_sel [of "snd (Begin s)"] keysWith_obsEq [OF o] obsEq_iff counted_sel [of s])
qed

lemma counted_Rollback: "counted s \<Longrightarrow> counted (snd (Rollback s))"
  by (auto simp: Rollback_def counted_sel [of s] split: option.splits)

lemma counted_Commit:
  assumes "counted s" "depth s \<le> 1"
  shows "counted (snd (Commit s))"
proof (cases "Parent s")
  case None
  then show ?thesis using assms by (simp add: Commit_def)
next
  case (Some r)
  then have r: "Parent r = None"
    using assms(2) by (simp add: depth_sel [of s] depth_sel [of r] split: option.splits)
  have o: "obsEq (snd (Commit s)) s" using Some r by (rule obsEq_Commit_depth1)
  have k: "keysWith (snd (Commit s)) val = keysWith s val" for val
    by (rule keysWith_obsEq [OF o])
  have cnt: "fst (Count (snd (Commit s)) val) = fst (Count s val)" for val
    using o by (simp add: obsEq_iff)
  have sel: "Kv (snd (Commit s)) = Kv r ++ Kv s" "Parent (snd (Commit s)) = None"
    by (simp_all add: Commit_depth1 [OF Some r])
  have "finite (dom (Kv r))" "finite (dom (Kv s))"
    using assms(1) Some by (simp_all add: counted_sel [of s] counted_sel [of r])
  then show ?thesis
    using assms(1) by (simp add: counted_sel [of "snd (Commit s)"] k cnt sel counted_sel [of s])
qed

lemma counted_handle:
  "counted s \<Longrightarrow> (c = COMMIT \<Longrightarrow> depth s \<le> 1) \<Longrightarrow> counted (snd (handle s c))"
  by (cases c) (simp_all add: counted_Set Delete_eq counted_Begin counted_Rollback counted_Commit)

lemma counted_exec: "counted s \<Longrightarrow> shallowCommits s cs \<Longrightarrow> counted (exec s cs)"
proof (induction cs arbitrary: s)
  case Nil
  then show ?case by simp
next
  case (Cons c cs)
  from Cons.prems have "counted (snd (handle s c))"
    by (intro counted_handle) (simp_all split: if_splits)
  with Cons show ?case by simp
qed

section \<open>Lookup\<close>

text \<open>
  C7. \<open>Get\<close> is nearest-overlay-wins: a key recorded in the store's own \<open>Kv\<close> resolves to
  that value, the empty string included; a key not recorded there resolves as in the parent;
  over the whole chain the result is the entry of the first layer that records the key; and
  the result is \<open>ERR_KEY_NOT_EXIST\<close> exactly when no layer from the store to the root
  records the key.
\<close>

theorem Get_nearest_overlay_wins:
  "(Kv s key = Some val \<longrightarrow> Get s key = (val, None)) \<and>
   (Kv s key = None \<longrightarrow> Parent s = Some p \<longrightarrow> Get s key = Get p key) \<and>
   (Kv s key = None \<longrightarrow> Parent s = None \<longrightarrow> Get s key = ('''', Some ERR_KEY_NOT_EXIST)) \<and>
   Get s key =
     (case List.find (\<lambda>l. Kv l key \<noteq> None) (layers s) of
        None \<Rightarrow> ('''', Some ERR_KEY_NOT_EXIST)
      | Some l \<Rightarrow> (the (Kv l key), None)) \<and>
   (snd (Get s key) = Some ERR_KEY_NOT_EXIST \<longleftrightarrow> (\<forall>l \<in> set (layers s). Kv l key = None))"
proof -
  have "Kv s key = Some val \<longrightarrow> Get s key = (val, None)"
    by (simp add: Get_sel [of s])
  moreover have "Kv s key = None \<longrightarrow> Parent s = Some p \<longrightarrow> Get s key = Get p key"
    by (simp add: Get_sel [of s])
  moreover have "Kv s key = None \<longrightarrow> Parent s = None \<longrightarrow> Get s key = ('''', Some ERR_KEY_NOT_EXIST)"
    by (simp add: Get_sel [of s])
  ultimately show ?thesis
    using Get_find [of s key] Get_fails_iff [of s key] by blast
qed

theorem Get_nearest_overlay_wins_witness:
  "Get (Store [''a'' \<mapsto> ''''] Map.empty (Some (Store [''a'' \<mapsto> ''foo'', ''b'' \<mapsto> ''baz''] Map.empty None))) ''a''
     = ('''', None) \<and>
   Get (Store [''a'' \<mapsto> ''''] Map.empty (Some (Store [''a'' \<mapsto> ''foo'', ''b'' \<mapsto> ''baz''] Map.empty None))) ''b''
     = Get (Store [''a'' \<mapsto> ''foo'', ''b'' \<mapsto> ''baz''] Map.empty None) ''b'' \<and>
   Get (Store [''a'' \<mapsto> ''foo'', ''b'' \<mapsto> ''baz''] Map.empty None) ''c'' = ('''', Some ERR_KEY_NOT_EXIST)"
  using
    Get_nearest_overlay_wins [of
      "Store [''a'' \<mapsto> ''''] Map.empty (Some (Store [''a'' \<mapsto> ''foo'', ''b'' \<mapsto> ''baz''] Map.empty None))"
      "''a''" "''''" "Store [''a'' \<mapsto> ''foo'', ''b'' \<mapsto> ''baz''] Map.empty None"]
    Get_nearest_overlay_wins [of
      "Store [''a'' \<mapsto> ''''] Map.empty (Some (Store [''a'' \<mapsto> ''foo'', ''b'' \<mapsto> ''baz''] Map.empty None))"
      "''b''" "''''" "Store [''a'' \<mapsto> ''foo'', ''b'' \<mapsto> ''baz''] Map.empty None"]
    Get_nearest_overlay_wins [of
      "Store [''a'' \<mapsto> ''foo'', ''b'' \<mapsto> ''baz''] Map.empty None" "''c''"]
  by simp

section \<open>Errors\<close>

text \<open>
  C10. \<open>Set\<close> never fails: for every store, key and value (the empty string included) it
  returns \<open>nil\<close>. The guard of its error-propagation branch, an error of \<open>Get\<close> other
  than \<open>ERR_KEY_NOT_EXIST\<close>, is never true.
\<close>

theorem Set_never_fails:
  "fst (Set s key val) = None \<and>
   \<not> (snd (Get s key) \<noteq> None \<and> snd (Get s key) \<noteq> Some ERR_KEY_NOT_EXIST)"
  using Get_err [of s key] by (auto simp: Set_eq)

theorem Set_never_fails_witness:
  "fst (Set InitStore ''a'' '''') = None \<and> snd (Get InitStore ''a'') = Some ERR_KEY_NOT_EXIST"
  using Set_never_fails [of InitStore "''a''" "''''"]
  by (simp add: InitStore_def NewStore_def)

text \<open>
  C9. Failure atomicity: whenever one of the seven operations returns an error, the store
  that \<open>currentStore\<close> points to afterwards, with every layer below it, is the one from
  before the call.
\<close>

theorem failure_atomicity: "fst (handle s c) = Some e \<Longrightarrow> snd (handle s c) = s"
  by (cases c)
    (auto simp: Set_eq Delete_eq Begin_def Rollback_def Commit_def Let_def
      split: option.splits if_splits)

theorem failure_atomicity_witness:
  "fst (handle (NewStore (Some InitStore)) (DELETE ''a'')) = Some ERR_KEY_NOT_EXIST \<and>
   snd (handle (NewStore (Some InitStore)) (DELETE ''a'')) = NewStore (Some InitStore) \<and>
   fst (handle InitStore COMMIT) = Some ERR_NOT_TRANSACTION \<and>
   snd (handle InitStore COMMIT) = InitStore"
  using failure_atomicity [of "NewStore (Some InitStore)" "DELETE ''a''" ERR_KEY_NOT_EXIST]
    failure_atomicity [of InitStore COMMIT ERR_NOT_TRANSACTION]
  by (simp add: Delete_eq Commit_def InitStore_def NewStore_def)

section \<open>Counts\<close>

text \<open>
  C1, as stated, fails for the empty string. After \<open>SET a foo; DELETE a\<close> the key \<open>a\<close>
  resolves to the empty string (the tombstone, returned with a \<open>nil\<close> error), so one key
  resolves to it, yet its count is 0: \<open>Set\<close> counts a new value only when it is not empty.
\<close>

theorem Count_empty_value_counterexample:
  "fst (Count (exec InitStore [SET ''a'' ''foo'', DELETE ''a'']) '''') = 0 \<and>
   int (card (keysWith (exec InitStore [SET ''a'' ''foo'', DELETE ''a'']) '''')) = 1 \<and>
   fst (Count (exec InitStore [SET ''a'' ''foo'', DELETE ''a'']) '''')
     \<noteq> int (card (keysWith (exec InitStore [SET ''a'' ''foo'', DELETE ''a'']) ''''))"
proof -
  have "keysWith (exec InitStore [SET ''a'' ''foo'', DELETE ''a'']) '''' = {''a''}"
    by (auto simp: keysWith_def eval_defs Set_eq Delete_eq split: if_splits)
  then show ?thesis by (simp add: eval_defs Set_eq Delete_eq)
qed

text \<open>
  C1, amended. For every non-empty value and every state reached from the initial store by
  a sequence of the seven operations in which no \<open>Commit\<close> is issued two or more
  transactions deep, \<open>Count\<close> of the value is the number of keys for which \<open>Get\<close>
  resolves to it.
\<close>

theorem Count_matches_Get:
  assumes "shallowCommits InitStore cs" and "val \<noteq> ''''"
  shows "fst (Count (exec InitStore cs) val) = int (card (keysWith (exec InitStore cs) val))"
  using counted_exec [OF counted_InitStore assms(1)] assms(2)
  by (simp add: counted_sel [of "exec InitStore cs"])

theorem Count_matches_Get_witness:
  "shallowCommits InitStore [SET ''a'' ''foo'', SET ''b'' ''foo'', BEGIN, DELETE ''a'', COMMIT] \<and>
   ''foo'' \<noteq> '''' \<and>
   int (card (keysWith
     (exec InitStore [SET ''a'' ''foo'', SET ''b'' ''foo'', BEGIN, DELETE ''a'', COMMIT]) ''foo'')) = 1"
proof -
  have h: "shallowCommits InitStore [SET ''a'' ''foo'', SET ''b'' ''foo'', BEGIN, DELETE ''a'', COMMIT]"
    by (simp add: eval_defs Set_eq Delete_eq)
  have v: "''foo'' \<noteq> ''''" by simp
  have "fst (Count (exec InitStore [SET ''a'' ''foo'', SET ''b'' ''foo'', BEGIN, DELETE ''a'', COMMIT])
      ''foo'') = 1"
    by (simp add: eval_defs Set_eq Delete_eq)
  then show ?thesis using h Count_matches_Get [OF h v] by simp
qed

text \<open>
  C3. \<open>Count\<close> never fails, but it can return a negative number. \<open>Set\<close> decrements the
  count of the value it overwrites also when that value is the empty string, which is never
  incremented: after \<open>SET a foo; DELETE a; SET a bar\<close> the count of the empty string is -1.
  And a \<open>COMMIT\<close> two transactions deep leaves counts that no longer match the keys:
  after \<open>SET a foo; BEGIN; SET a bar; BEGIN; SET b x; COMMIT; SET a baz\<close> the count of
  \<open>foo\<close> is -1.
\<close>

theorem Count_negative:
  "Count (exec InitStore [SET ''a'' ''foo'', DELETE ''a'', SET ''a'' ''bar'']) '''' = (- 1, None) \<and>
   Count (exec InitStore
     [SET ''a'' ''foo'', BEGIN, SET ''a'' ''bar'', BEGIN, SET ''b'' ''x'', COMMIT, SET ''a'' ''baz''])
     ''foo'' = (- 1, None)"
  by (simp add: eval_defs Set_eq Delete_eq)

text \<open>What holds of C3: \<open>Count\<close> returns no error, and without deep commits the count of a
  non-empty value is not negative.\<close>

lemma Count_nonneg:
  "shallowCommits InitStore cs \<Longrightarrow> val \<noteq> '''' \<Longrightarrow> 0 \<le> fst (Count (exec InitStore cs) val)"
  using counted_exec [OF counted_InitStore, of cs]
  by (simp add: counted_sel [of "exec InitStore cs"])

section \<open>Commit\<close>

text \<open>
  C2. A \<open>Commit\<close> two transactions deep does not carry the keys of the layer in between
  into the root. After \<open>BEGIN; SET a foo; BEGIN; SET b bar\<close> the store is two deep and \<open>a\<close>
  resolves to \<open>foo\<close>; after \<open>COMMIT\<close> the key \<open>a\<close> is not found, while \<open>b\<close> resolves to
  \<open>bar\<close> and the count of \<open>foo\<close>, folded in from the middle layer, is 1.
\<close>

theorem deep_Commit_drops_middle_layer:
  "depth (exec InitStore [BEGIN, SET ''a'' ''foo'', BEGIN, SET ''b'' ''bar'']) = 2 \<and>
   Get (exec InitStore [BEGIN, SET ''a'' ''foo'', BEGIN, SET ''b'' ''bar'']) ''a'' = (''foo'', None) \<and>
   Get (exec InitStore [BEGIN, SET ''a'' ''foo'', BEGIN, SET ''b'' ''bar'', COMMIT]) ''a''
     = ('''', Some ERR_KEY_NOT_EXIST) \<and>
   Get (exec InitStore [BEGIN, SET ''a'' ''foo'', BEGIN, SET ''b'' ''bar'', COMMIT]) ''b''
     = (''bar'', None) \<and>
   Count (exec InitStore [BEGIN, SET ''a'' ''foo'', BEGIN, SET ''b'' ''bar'', COMMIT]) ''foo''
     = (1, None)"
  by (simp add: eval_defs Set_eq)

text \<open>
  C6. Depth-1 commit refinement: from a root store, \<open>Begin\<close>, then any sequence of
  \<open>Set\<close>, \<open>Delete\<close>, \<open>Get\<close> and \<open>Count\<close>, then \<open>Commit\<close>, gives the very store
  that the same sequence gives when run directly on the root. So the result is a root
  again, every \<open>Get\<close> and every \<open>Count\<close> returns what it returns after the direct
  run, and whatever commands follow, the two runs stay the same.
\<close>

theorem depth1_Commit_refinement:
  assumes "Parent r = None" and "list_all isData cs"
  shows "exec r (BEGIN # cs @ [COMMIT]) = exec r cs \<and>
         Parent (exec r (BEGIN # cs @ [COMMIT])) = None \<and>
         obsEq (exec r (BEGIN # cs @ [COMMIT])) (exec r cs) \<and>
         (\<forall>ds. exec r (BEGIN # cs @ COMMIT # ds) = exec r (cs @ ds))"
proof -
  have e: "exec r (BEGIN # cs @ [COMMIT]) = exec r cs"
    using assms by (rule Commit_is_direct)
  have p: "Parent (exec r cs) = None"
    using assms by (simp add: Parent_exec_data)
  have "exec r (BEGIN # cs @ COMMIT # ds) = exec r (cs @ ds)" for ds
  proof -
    have "exec r (BEGIN # cs @ COMMIT # ds) = exec (exec r (BEGIN # cs @ [COMMIT])) ds"
      using exec_append [of r "BEGIN # cs @ [COMMIT]" ds] by simp
    also have "\<dots> = exec (exec r cs) ds" by (simp only: e)
    finally show ?thesis by (simp add: exec_append)
  qed
  then show ?thesis using e p by (simp add: obsEq_def)
qed

theorem depth1_Commit_refinement_witness:
  "Parent InitStore = None \<and>
   list_all isData [SET ''a'' ''foo'', SET ''b'' ''baz'', DELETE ''a'', GET ''a'', COUNT ''foo''] \<and>
   exec InitStore
     (BEGIN # [SET ''a'' ''foo'', SET ''b'' ''baz'', DELETE ''a'', GET ''a'', COUNT ''foo'']
        @ [COMMIT])
     = exec InitStore [SET ''a'' ''foo'', SET ''b'' ''baz'', DELETE ''a'', GET ''a'', COUNT ''foo''] \<and>
   Parent (exec InitStore
     (BEGIN # [SET ''a'' ''foo'', SET ''b'' ''baz'', DELETE ''a'', GET ''a'', COUNT ''foo'']
        @ [COMMIT])) = None \<and>
   obsEq
     (exec InitStore
        (BEGIN # [SET ''a'' ''foo'', SET ''b'' ''baz'', DELETE ''a'', GET ''a'', COUNT ''foo'']
           @ [COMMIT]))
     (exec InitStore [SET ''a'' ''foo'', SET ''b'' ''baz'', DELETE ''a'', GET ''a'', COUNT ''foo'']) \<and>
   exec InitStore
     (BEGIN # [SET ''a'' ''foo'', SET ''b'' ''baz'', DELETE ''a'', GET ''a'', COUNT ''foo'']
        @ COMMIT # [ROLLBACK, SET ''c'' ''x''])
     = exec InitStore
         ([SET ''a'' ''foo'', SET ''b'' ''baz'', DELETE ''a'', GET ''a'', COUNT ''foo'']
            @ [ROLLBACK, SET ''c'' ''x''])"
proof -
  have r: "Parent InitStore = None" by (simp add: InitStore_def NewStore_def)
  have d: "list_all isData [SET ''a'' ''foo'', SET ''b'' ''baz'', DELETE ''a'', GET ''a'', COUNT ''foo'']"
    by simp
  show ?thesis using r d depth1_Commit_refinement [OF r d] by blast
qed

section \<open>Rollback\<close>

text \<open>
  C5, as stated, fails when the operations between \<open>Begin\<close> and its \<open>Rollback\<close> hold a
  \<open>Commit\<close>: \<open>Commit\<close> folds into the root and makes the root current, so the transaction
  to roll back is gone. From the initial store, after
  \<open>BEGIN; BEGIN; SET a foo; COMMIT; ROLLBACK\<close> the key \<open>a\<close> resolves to \<open>foo\<close>, and it
  was not found before.
\<close>

theorem Rollback_after_Commit_counterexample:
  "Get (exec InitStore (BEGIN # [BEGIN, SET ''a'' ''foo'', COMMIT] @ [ROLLBACK])) ''a''
     = (''foo'', None) \<and>
   Get InitStore ''a'' = ('''', Some ERR_KEY_NOT_EXIST)"
  by (simp add: eval_defs Set_eq)

text \<open>
  C5, amended. \<open>Rollback\<close> is a strict inverse of \<open>Begin\<close> over operations that hold no
  \<open>Commit\<close>: for any store and any sequence of \<open>Set\<close>, \<open>Get\<close>, \<open>Delete\<close>, \<open>Count\<close> and
  nested \<open>Begin\<close> ... \<open>Rollback\<close> pairs run between \<open>Begin\<close> and the matching
  \<open>Rollback\<close>, the store afterwards is the store from before; so every \<open>Get\<close> and every
  \<open>Count\<close> is as before.
\<close>

theorem Rollback_inverse_of_Begin:
  "balanced 0 cs \<Longrightarrow> exec s (BEGIN # cs @ [ROLLBACK]) = s"
  using balanced_exec [of 0 cs "snd (Begin s)" s] by (simp add: Begin_def NewStore_def)

theorem Rollback_inverse_of_Begin_witness:
  "balanced 0 [SET ''a'' ''foo'', BEGIN, DELETE ''a'', ROLLBACK, COUNT ''foo''] \<and>
   exec (exec InitStore [SET ''a'' ''bar''])
     (BEGIN # [SET ''a'' ''foo'', BEGIN, DELETE ''a'', ROLLBACK, COUNT ''foo''] @ [ROLLBACK])
     = exec InitStore [SET ''a'' ''bar'']"
proof -
  have b: "balanced 0 [SET ''a'' ''foo'', BEGIN, DELETE ''a'', ROLLBACK, COUNT ''foo'']"
    by simp
  show ?thesis
    using b Rollback_inverse_of_Begin [OF b, of "exec InitStore [SET ''a'' ''bar'']"] by blast
qed

section \<open>Set, Get and Delete\<close>

text \<open>
  C4, as stated, fails after a deletion: \<open>Delete\<close> and \<open>Set\<close> with the empty string write
  the empty string into the overlay, and \<open>Get\<close> returns it with a \<open>nil\<close> error, not with
  \<open>ERR_KEY_NOT_EXIST\<close>.
\<close>

theorem Get_after_Delete_counterexample:
  "Parent (snd (Set InitStore ''a'' ''foo'')) = None \<and>
   fst (Delete (snd (Set InitStore ''a'' ''foo'')) ''a'') = None \<and>
   Get (snd (Delete (snd (Set InitStore ''a'' ''foo'')) ''a'')) ''a'' = ('''', None) \<and>
   Get (snd (Set InitStore ''a'' '''')) ''a'' = ('''', None)"
  by (simp add: eval_defs Set_eq Delete_eq)

text \<open>
  C4, amended. In every non-transactional state, immediately after \<open>Set\<close> of a key to a
  non-empty value \<open>Get\<close> of the key returns that value; immediately after \<open>Set\<close> of the
  key to the empty string, or after a \<open>Delete\<close> of the key that returned no error,
  \<open>Get\<close> of the key succeeds and returns the empty string; and after either, also after a
  \<open>Delete\<close> that failed, the interpreter's \<open>handleGet\<close> prints \<open>NULL\<close>.
\<close>

theorem Get_after_Set_Delete:
  "Parent s = None \<Longrightarrow>
     (val \<noteq> '''' \<longrightarrow> Get (snd (Set s key val)) key = (val, None)) \<and>
     Get (snd (Set s key '''')) key = ('''', None) \<and>
     (fst (Delete s key) = None \<longrightarrow> Get (snd (Delete s key)) key = ('''', None)) \<and>
     handleGet (snd (Set s key '''')) key = (''NULL'', None) \<and>
     handleGet (snd (Delete s key)) key = (''NULL'', None)"
  using Get_err [of s key] Get_err_value [of s key]
  by (auto simp: Get_Set Delete_eq handleGet_def split_beta)

theorem Get_after_Set_Delete_witness:
  "Parent (snd (Set InitStore ''a'' ''foo'')) = None \<and> ''bar'' \<noteq> '''' \<and>
   Get (snd (Set (snd (Set InitStore ''a'' ''foo'')) ''a'' ''bar'')) ''a'' = (''bar'', None) \<and>
   fst (Delete (snd (Set InitStore ''a'' ''foo'')) ''a'') = None \<and>
   Get (snd (Delete (snd (Set InitStore ''a'' ''foo'')) ''a'')) ''a'' = ('''', None)"
proof -
  have p: "Parent (snd (Set InitStore ''a'' ''foo'')) = None"
    by (simp add: eval_defs Set_eq)
  have d: "fst (Delete (snd (Set InitStore ''a'' ''foo'')) ''a'') = None"
    by (simp add: eval_defs Set_eq Delete_eq)
  show ?thesis
    using p d Get_after_Set_Delete [OF p, of "''bar''" "''a''"] by simp
qed

text \<open>
  C8. \<open>Set\<close> of the same key to the same value twice changes the count of the value when
  the value is the empty string: the second call finds the empty string as the old value and
  decrements its count. From the initial store the count of the empty string is 0 after
  one \<open>Set\<close> of \<open>a\<close> to the empty string and -1 after the second; likewise after
  \<open>SET a foo; DELETE a\<close> a second \<open>DELETE a\<close> returns no error and takes the count of
  the empty string from 0 to -1.
\<close>

theorem Set_twice_empty_value:
  "Count (exec InitStore [SET ''a'' '''']) '''' = (0, None) \<and>
   Count (exec InitStore [SET ''a'' '''', SET ''a'' '''']) '''' = (- 1, None) \<and>
   fst (handle (exec InitStore [SET ''a'' ''foo'', DELETE ''a'']) (DELETE ''a'')) = None \<and>
   Count (exec InitStore [SET ''a'' ''foo'', DELETE ''a'']) '''' = (0, None) \<and>
   Count (exec InitStore [SET ''a'' ''foo'', DELETE ''a'', DELETE ''a'']) '''' = (- 1, None)"
  by (simp add: eval_defs Set_eq Delete_eq)

text \<open>What holds of C8: \<open>Delete\<close> of a key that no layer records fails both times and
  changes nothing, and a repeated \<open>Set\<close> of a non-empty value changes no count.\<close>

lemma Delete_absent_twice:
  "snd (Get s key) = Some ERR_KEY_NOT_EXIST \<Longrightarrow>
     Delete s key = (Some ERR_KEY_NOT_EXIST, s) \<and>
     Delete (snd (Delete s key)) key = (Some ERR_KEY_NOT_EXIST, s)"
  by (simp add: Delete_eq)

lemma Set_twice_Count:
  "val \<noteq> '''' \<Longrightarrow>
     Count (snd (Set (snd (Set s key val)) key val)) w = Count (snd (Set s key val)) w"
  by (simp add: Count_eq_iff Count_Set [of "snd (Set s key val)"] Get_Set)

end
